theory Spec2Isabelle
  imports Main "HOL-Library.Word" "HOL-Library.Sublist"
begin

section \<open>The result model and the parser abstraction of cnomlite\<close>

text \<open>
  \<^verbatim>\<open>ParseSuccess<T>\<close> is the struct of a parsed value and the unconsumed input. Its
  field \<^verbatim>\<open>value\<close> is called \<open>val\<close> here, the source's name being a keyword of
  Isabelle. \<^verbatim>\<open>ParseResult<T>\<close> is the variant of a success and an error message.
\<close>

record 'a ParseSuccess =
  val :: 'a
  remaining :: string

datatype 'a ParseResult = Success "'a ParseSuccess" | Failure string

text \<open>
  A \<^verbatim>\<open>Parser<T>\<close> wraps a function from the input to a result. The loops of
  \<^verbatim>\<open>many\<close> and \<^verbatim>\<open>sep_by\<close> are \<^verbatim>\<open>while (true)\<close> loops that only a failing
  sub-parser leaves, so an application of a parser need not return: \<open>None\<close> is the
  application that never returns, \<open>Some r\<close> the one that returns \<open>r\<close>.
\<close>

type_synonym 'a Parser = "string \<Rightarrow> 'a ParseResult option"

text \<open>\<^verbatim>\<open>make_parser\<close> builds a parser from a function of the caller's.\<close>

definition make_parser :: "(string \<Rightarrow> 'a ParseResult option) \<Rightarrow> 'a Parser" where
  "make_parser fn = fn"

text \<open>The 32-bit \<^verbatim>\<open>int\<close> of the implementation; its arithmetic wraps around.\<close>

type_synonym cint = "32 word"

section \<open>Character classes of the C library, in the C locale\<close>

definition isdigit :: "char \<Rightarrow> bool" where
  "isdigit c = (c \<in> set ''0123456789'')"

definition isspace :: "char \<Rightarrow> bool" where
  "isspace c = (c \<in> set [CHR '' '', CHR 0x09, CHR 0x0A, CHR 0x0B, CHR 0x0C, CHR 0x0D])"

section \<open>Basic parsers\<close>

text \<open>The text shown for the first character of the input in an error message.\<close>

definition found_text :: "string \<Rightarrow> string" where
  "found_text input = (case input of [] \<Rightarrow> ''EOF'' | c # rest \<Rightarrow> [c])"

definition any_char :: "char Parser" where
  "any_char input =
     (case input of
        [] \<Rightarrow> Some (Failure ''Unexpected end of input'')
      | c # rest \<Rightarrow> Some (Success \<lparr>val = c, remaining = rest\<rparr>))"

definition char_p :: "char \<Rightarrow> char Parser" where
  "char_p expected input =
     (if input \<noteq> [] \<and> hd input = expected
      then Some (Success \<lparr>val = expected, remaining = drop 1 input\<rparr>)
      else Some (Failure (''Expected '' @ [CHR 0x27] @ [expected] @ [CHR 0x27]
             @ '', found '' @ [CHR 0x27] @ found_text input @ [CHR 0x27])))"

definition string_p :: "string \<Rightarrow> string Parser" where
  "string_p expected input =
     (if length expected \<le> length input \<and> take (length expected) input = expected
      then Some (Success \<lparr>val = expected, remaining = drop (length expected) input\<rparr>)
      else
        (let found = (if length expected \<le> length input
                      then take (length expected) input else input)
         in Some (Failure (''Expected '' @ [CHR 0x22] @ expected @ [CHR 0x22]
                  @ '', found '' @ [CHR 0x22] @ found @ [CHR 0x22]))))"

definition digit :: "char Parser" where
  "digit input =
     (if input \<noteq> [] \<and> isdigit (hd input)
      then Some (Success \<lparr>val = hd input, remaining = drop 1 input\<rparr>)
      else Some (Failure (''Expected digit, found '' @ [CHR 0x27]
             @ found_text input @ [CHR 0x27])))"

definition whitespace_char :: "char Parser" where
  "whitespace_char input =
     (if input \<noteq> [] \<and> isspace (hd input)
      then Some (Success \<lparr>val = hd input, remaining = drop 1 input\<rparr>)
      else Some (Failure (''Expected whitespace, found '' @ [CHR 0x27]
             @ found_text input @ [CHR 0x27])))"

section \<open>Combinators\<close>

definition map_p :: "'a Parser \<Rightarrow> ('a \<Rightarrow> 'b) \<Rightarrow> 'b Parser" where
  "map_p p f input =
     (case p input of
        None \<Rightarrow> None
      | Some (Success ps) \<Rightarrow> Some (Success \<lparr>val = f (val ps), remaining = remaining ps\<rparr>)
      | Some (Failure e) \<Rightarrow> Some (Failure e))"

definition bind_p :: "'a Parser \<Rightarrow> ('a \<Rightarrow> 'b Parser) \<Rightarrow> 'b Parser" where
  "bind_p p f input =
     (case p input of
        None \<Rightarrow> None
      | Some (Success ps) \<Rightarrow> (let next = f (val ps) in next (remaining ps))
      | Some (Failure e) \<Rightarrow> Some (Failure e))"

definition sequence :: "'a Parser \<Rightarrow> 'b Parser \<Rightarrow> ('a \<times> 'b) Parser" where
  "sequence p1 p2 input =
     (case p1 input of
        None \<Rightarrow> None
      | Some (Success ps1) \<Rightarrow>
          (case p2 (remaining ps1) of
             None \<Rightarrow> None
           | Some (Success ps2) \<Rightarrow>
               Some (Success \<lparr>val = (val ps1, val ps2), remaining = remaining ps2\<rparr>)
           | Some (Failure e2) \<Rightarrow> Some (Failure e2))
      | Some (Failure e1) \<Rightarrow> Some (Failure e1))"

text \<open>
  The loop of \<^verbatim>\<open>choice\<close> over the parsers, with the accumulated \<^verbatim>\<open>errors\<close>, and
  what follows the loop once the list is exhausted.
\<close>

fun choice_loop :: "'a Parser list \<Rightarrow> string \<Rightarrow> string \<Rightarrow> 'a ParseResult option" where
  "choice_loop [] input errors =
     (let errors2 = (if errors \<noteq> [] then take (length errors - 3) errors else errors)
      in Some (Failure (if errors2 = [] then ''No alternatives matched'' else errors2)))"
| "choice_loop (parser # parsers) input errors =
     (case parser input of
        None \<Rightarrow> None
      | Some (Success ps) \<Rightarrow> Some (Success ps)
      | Some (Failure e) \<Rightarrow> choice_loop parsers input (errors @ e @ '' | ''))"

definition choice :: "'a Parser list \<Rightarrow> 'a Parser" where
  "choice parsers input = choice_loop parsers input []"

text \<open>
  The \<^verbatim>\<open>while (true)\<close> loop of \<^verbatim>\<open>many\<close> on its two variables. It is left only when
  \<open>p\<close> fails, so it is a partial function.
\<close>

partial_function (option) many_loop ::
  "'a Parser \<Rightarrow> 'a list \<Rightarrow> string \<Rightarrow> 'a list ParseResult option" where
  "many_loop p results rest =
     (case p rest of
        None \<Rightarrow> None
      | Some (Success ps) \<Rightarrow> many_loop p (results @ [val ps]) (remaining ps)
      | Some (Failure e) \<Rightarrow> Some (Success \<lparr>val = results, remaining = rest\<rparr>))"

definition many :: "'a Parser \<Rightarrow> 'a list Parser" where
  "many p input = many_loop p [] input"

definition many1 :: "'a Parser \<Rightarrow> 'a list Parser" where
  "many1 p input =
     (case many p input of
        None \<Rightarrow> None
      | Some (Success ps) \<Rightarrow>
          (if val ps = [] then Some (Failure ''Expected at least one occurrence'')
           else Some (Success ps))
      | Some (Failure e) \<Rightarrow> Some (Failure e))"

definition optional_p :: "'a Parser \<Rightarrow> 'a option Parser" where
  "optional_p p input =
     (case p input of
        None \<Rightarrow> None
      | Some (Success ps) \<Rightarrow> Some (Success \<lparr>val = Some (val ps), remaining = remaining ps\<rparr>)
      | Some (Failure e) \<Rightarrow> Some (Success \<lparr>val = None, remaining = input\<rparr>))"

text \<open>The \<^verbatim>\<open>while (true)\<close> loop of \<^verbatim>\<open>sep_by\<close> on its two variables.\<close>

partial_function (option) sep_by_loop ::
  "'a Parser \<Rightarrow> 'b Parser \<Rightarrow> 'a list \<Rightarrow> string \<Rightarrow> 'a list ParseResult option" where
  "sep_by_loop element separator results rest =
     (case element rest of
        None \<Rightarrow> None
      | Some (Success ps_elem) \<Rightarrow>
          (case separator (remaining ps_elem) of
             None \<Rightarrow> None
           | Some (Success ps_sep) \<Rightarrow>
               sep_by_loop element separator (results @ [val ps_elem]) (remaining ps_sep)
           | Some (Failure e) \<Rightarrow>
               Some (Success \<lparr>val = results @ [val ps_elem], remaining = remaining ps_elem\<rparr>))
      | Some (Failure e) \<Rightarrow> Some (Success \<lparr>val = results, remaining = rest\<rparr>))"

definition sep_by :: "'a Parser \<Rightarrow> 'b Parser \<Rightarrow> 'a list Parser" where
  "sep_by element separator input = sep_by_loop element separator [] input"

section \<open>Utility and higher-level parsers\<close>

definition whitespace :: "char list Parser" where
  "whitespace = many whitespace_char"

definition skip_ws :: "'a Parser \<Rightarrow> 'a Parser" where
  "skip_ws p = bind_p whitespace (\<lambda>ws. p)"

text \<open>
  The function that \<^verbatim>\<open>integer_p\<close> maps over the digits: the loop
  \<^verbatim>\<open>value = value * 10 + (c - '0')\<close> from \<^verbatim>\<open>value = 0\<close>, in \<^verbatim>\<open>int\<close> arithmetic.
  A character is read by its code, \<open>'0'\<close> being \<open>48\<close>; the characters that
  \<^verbatim>\<open>many1(digit)\<close> hands over are digits, of codes \<open>48\<close> to \<open>57\<close>, so the sign of
  a \<^verbatim>\<open>char\<close> above \<open>127\<close> plays no part.
\<close>

definition digits_value :: "char list \<Rightarrow> cint" where
  "digits_value digits =
     foldl (\<lambda>v c. v * 10 + (word_of_nat (of_char c) - 48)) 0 digits"

definition integer_p :: "cint Parser" where
  "integer_p = map_p (many1 digit) digits_value"

section \<open>Runs of a loop, for stating what the loops compute\<close>

text \<open>
  \<open>many_steps p i vs r\<close>: applied to \<open>i\<close> and then to each remainder in turn, \<open>p\<close>
  succeeds \<open>length vs\<close> times, with the values \<open>vs\<close> in this order, and leaves \<open>r\<close>.
\<close>

fun many_steps :: "'a Parser \<Rightarrow> string \<Rightarrow> 'a list \<Rightarrow> string \<Rightarrow> bool" where
  "many_steps p i [] r = (r = i)"
| "many_steps p i (v # vs) r =
     (case p i of
        Some (Success ps) \<Rightarrow> val ps = v \<and> many_steps p (remaining ps) vs r
      | _ \<Rightarrow> False)"

text \<open>
  \<open>sep_by_steps element separator i vs r\<close>: from \<open>i\<close>, the loop of \<^verbatim>\<open>sep_by\<close> runs
  \<open>length vs\<close> full rounds, in each of which \<open>element\<close> succeeds (with the values
  \<open>vs\<close>, in order) and \<open>separator\<close> then succeeds, and the last separator leaves \<open>r\<close>.
\<close>

fun sep_by_steps :: "'a Parser \<Rightarrow> 'b Parser \<Rightarrow> string \<Rightarrow> 'a list \<Rightarrow> string \<Rightarrow> bool" where
  "sep_by_steps element separator i [] r = (r = i)"
| "sep_by_steps element separator i (v # vs) r =
     (case element i of
        Some (Success ps_elem) \<Rightarrow>
          val ps_elem = v \<and>
          (case separator (remaining ps_elem) of
             Some (Success ps_sep) \<Rightarrow> sep_by_steps element separator (remaining ps_sep) vs r
           | _ \<Rightarrow> False)
      | _ \<Rightarrow> False)"

text \<open>The messages of the branches of \<^verbatim>\<open>choice\<close>, joined by \<open>" | "\<close>.\<close>

fun join_errors :: "string list \<Rightarrow> string" where
  "join_errors [] = []"
| "join_errors [e] = e"
| "join_errors (e # es) = e @ '' | '' @ join_errors es"

text \<open>
  A parser made by a caller with \<^verbatim>\<open>make_parser\<close> whose failure carries the empty
  message.
\<close>

definition silent_failure :: "char Parser" where
  "silent_failure = make_parser (\<lambda>input. Some (Failure ''''))"

text \<open>The natural number that a string of decimal digits denotes.\<close>

definition decimal_value :: "char list \<Rightarrow> nat" where
  "decimal_value digits = foldl (\<lambda>n c. n * 10 + (of_char c - 48)) 0 digits"

section \<open>The parsers composed from the primitives and the combinators\<close>

text \<open>
  The parsers that the primitives and the combinators build are of many result types.
  To speak of all of them at once, their values are read in one type: the characters,
  strings, integers, sequences, pairs and optional values that the core produces, and
  the values \<open>VUser\<close> of the caller's own types, which the functions given to
  \<^verbatim>\<open>map\<close> may produce.
\<close>

datatype 'u pvalue =
    VChar char
  | VString string
  | VInt cint
  | VList "'u pvalue list"
  | VPair "'u pvalue" "'u pvalue"
  | VOption "'u pvalue option"
  | VUser 'u

text \<open>
  The ways to compose a parser: the primitives, and each combinator applied to composed
  parsers. The function given to \<^verbatim>\<open>map\<close> is any function on values; the function
  given to \<^verbatim>\<open>bind\<close> yields a composed parser for every value.
\<close>

datatype 'u grammar =
    AnyChar
  | CharP char
  | StringP string
  | Digit
  | WhitespaceChar
  | Map "'u grammar" "'u pvalue \<Rightarrow> 'u pvalue"
  | Bind "'u grammar" "'u pvalue \<Rightarrow> 'u grammar"
  | Sequence "'u grammar" "'u grammar"
  | Choice "'u grammar list"
  | Many "'u grammar"
  | Many1 "'u grammar"
  | OptionalP "'u grammar"
  | SepBy "'u grammar" "'u grammar"
  | Whitespace
  | SkipWs "'u grammar"
  | IntegerP

text \<open>
  The parser that a composition denotes, built with the combinators above. Where a
  result is of a specific type, \<open>map_p\<close> (which leaves success, failure and the
  remainder as they are) reads it in \<open>pvalue\<close>.
\<close>

primrec parser_of :: "'u grammar \<Rightarrow> 'u pvalue Parser" where
  "parser_of AnyChar = map_p any_char VChar"
| "parser_of (CharP expected) = map_p (char_p expected) VChar"
| "parser_of (StringP expected) = map_p (string_p expected) VString"
| "parser_of Digit = map_p digit VChar"
| "parser_of WhitespaceChar = map_p whitespace_char VChar"
| "parser_of (Map g f) = map_p (parser_of g) f"
| "parser_of (Bind g f) = bind_p (parser_of g) (\<lambda>v. parser_of (f v))"
| "parser_of (Sequence g1 g2) =
     map_p (sequence (parser_of g1) (parser_of g2)) (\<lambda>ab. VPair (fst ab) (snd ab))"
| "parser_of (Choice gs) = choice (map parser_of gs)"
| "parser_of (Many g) = map_p (many (parser_of g)) VList"
| "parser_of (Many1 g) = map_p (many1 (parser_of g)) VList"
| "parser_of (OptionalP g) = map_p (optional_p (parser_of g)) VOption"
| "parser_of (SepBy g1 g2) = map_p (sep_by (parser_of g1) (parser_of g2)) VList"
| "parser_of Whitespace = map_p whitespace (\<lambda>cs. VList (map VChar cs))"
| "parser_of (SkipWs g) = skip_ws (parser_of g)"
| "parser_of IntegerP = map_p integer_p VInt"

text \<open>A parser whose every success leaves a suffix of its input.\<close>

definition leaves_suffix :: "'a Parser \<Rightarrow> bool" where
  "leaves_suffix p = (\<forall>i s. p i = Some (Success s) \<longrightarrow> suffix (remaining s) i)"

section \<open>Unfolding the loops\<close>

lemma many_loop_None:
  "p r = None \<Longrightarrow> many_loop p rs r = None"
  by (subst many_loop.simps) simp

lemma many_loop_Failure:
  "p r = Some (Failure e) \<Longrightarrow>
     many_loop p rs r = Some (Success \<lparr>val = rs, remaining = r\<rparr>)"
  by (subst many_loop.simps) simp

lemma many_loop_Success:
  "p r = Some (Success ps) \<Longrightarrow>
     many_loop p rs r = many_loop p (rs @ [val ps]) (remaining ps)"
  by (subst many_loop.simps) simp

section \<open>The identity law of map\<close>

text \<open>
  C8. For every parser \<open>p\<close> and input \<open>i\<close>, \<open>map(p, identity)(i)\<close> is \<open>p(i)\<close>: the
  same value and remainder when \<open>p\<close> succeeds, the same message when it fails (and
  no result when \<open>p\<close> returns none).
\<close>

theorem map_identity: "map_p p (\<lambda>x. x) i = p i"
  by (simp add: map_p_def split: option.split ParseResult.split)

section \<open>The empty literal\<close>

text \<open>
  C10. For every input \<open>i\<close>, the empty one too, \<open>string_p("")(i)\<close> succeeds with the
  value \<open>""\<close> and the remainder \<open>i\<close>: it consumes nothing and never fails.
\<close>

theorem string_p_empty:
  "string_p '''' i = Some (Success \<lparr>val = '''', remaining = i\<rparr>)"
  by (simp add: string_p_def)

section \<open>optional_p\<close>

text \<open>
  C5. For every parser \<open>p\<close> and input \<open>i\<close>, \<open>optional_p(p)(i)\<close> never fails: when
  \<open>p(i)\<close> succeeds with value \<open>v\<close> and remainder \<open>r\<close>, it succeeds with the present
  value \<open>v\<close> and remainder \<open>r\<close>; when \<open>p(i)\<close> fails, it succeeds with an absent value
  and the original input \<open>i\<close> as the remainder. It returns whenever \<open>p\<close> does.
\<close>

theorem optional_p_never_fails:
  "optional_p p i \<noteq> Some (Failure e)
   \<and> (p i = Some (Success \<lparr>val = v, remaining = r\<rparr>) \<longrightarrow>
        optional_p p i = Some (Success \<lparr>val = Some v, remaining = r\<rparr>))
   \<and> (p i = Some (Failure e') \<longrightarrow>
        optional_p p i = Some (Success \<lparr>val = None, remaining = i\<rparr>))
   \<and> (p i \<noteq> None \<longrightarrow> (\<exists>s. optional_p p i = Some (Success s)))"
  by (simp add: optional_p_def split: option.split ParseResult.split)

theorem optional_p_never_fails_witness:
  "optional_p digit ''7x'' = Some (Success \<lparr>val = Some (CHR ''7''), remaining = ''x''\<rparr>)
   \<and> optional_p digit ''abc'' = Some (Success \<lparr>val = None, remaining = ''abc''\<rparr>)"
proof -
  have s: "digit ''7x'' = Some (Success \<lparr>val = CHR ''7'', remaining = ''x''\<rparr>)"
    by (simp add: digit_def isdigit_def)
  have f: "digit ''abc'' = Some (Failure (''Expected digit, found '' @ [CHR 0x27] @ ''a'' @ [CHR 0x27]))"
    by (simp add: digit_def isdigit_def found_text_def)
  from optional_p_never_fails [of digit "''7x''" e "CHR ''7''" "''x''" e'] s
  have a: "optional_p digit ''7x'' = Some (Success \<lparr>val = Some (CHR ''7''), remaining = ''x''\<rparr>)"
    by blast
  from optional_p_never_fails [of digit "''abc''" e v r] f
  have b: "optional_p digit ''abc'' = Some (Success \<lparr>val = None, remaining = ''abc''\<rparr>)"
    by blast
  from a b show ?thesis by blast
qed

section \<open>many\<close>

lemma many_loop_steps:
  "many_steps p i vs r \<Longrightarrow> p r = Some (Failure e) \<Longrightarrow>
     many_loop p acc i = Some (Success \<lparr>val = acc @ vs, remaining = r\<rparr>)"
proof (induction vs arbitrary: acc i)
  case Nil
  then show ?case by (simp add: many_loop_Failure)
next
  case (Cons v vs)
  from Cons.prems(1) obtain ps where ps: "p i = Some (Success ps)" "val ps = v"
    "many_steps p (remaining ps) vs r"
    by (auto split: option.splits ParseResult.splits)
  from Cons.IH [OF ps(3) Cons.prems(2), of "acc @ [v]"] ps(1,2)
  show ?case by (simp add: many_loop_Success)
qed

lemma many_loop_returns:
  assumes "many_loop p acc i = Some res"
  shows "\<exists>vs r e. res = Success \<lparr>val = acc @ vs, remaining = r\<rparr> \<and> many_steps p i vs r
        \<and> p r = Some (Failure e)"
proof (rule many_loop.raw_induct
    [where P = "\<lambda>p acc i res. \<exists>vs r e. res = Success \<lparr>val = acc @ vs, remaining = r\<rparr>
        \<and> many_steps p i vs r \<and> p r = Some (Failure e)", OF _ assms])
  fix loop :: "'a Parser \<Rightarrow> 'a list \<Rightarrow> string \<Rightarrow> 'a list ParseResult option"
  fix p acc i res
  assume IH: "\<And>p acc i res. loop p acc i = Some res \<Longrightarrow>
      \<exists>vs r e. res = Success \<lparr>val = acc @ vs, remaining = r\<rparr> \<and> many_steps p i vs r
        \<and> p r = Some (Failure e)"
  assume step: "(case p i of
        None \<Rightarrow> None
      | Some (Success ps) \<Rightarrow> loop p (acc @ [val ps]) (remaining ps)
      | Some (Failure e) \<Rightarrow> Some (Success \<lparr>val = acc, remaining = i\<rparr>)) = Some res"
  show "\<exists>vs r e. res = Success \<lparr>val = acc @ vs, remaining = r\<rparr> \<and> many_steps p i vs r
        \<and> p r = Some (Failure e)"
  proof (cases "p i")
    case None
    with step show ?thesis by simp
  next
    case (Some a)
    show ?thesis
    proof (cases a)
      case (Success ps)
      with Some step have "loop p (acc @ [val ps]) (remaining ps) = Some res" by simp
      from IH [OF this] obtain vs r e where
        h: "res = Success \<lparr>val = (acc @ [val ps]) @ vs, remaining = r\<rparr>"
           "many_steps p (remaining ps) vs r" "p r = Some (Failure e)"
        by blast
      have "many_steps p i (val ps # vs) r" using Some Success h(2) by simp
      with h(1,3) show ?thesis
        by (intro exI [of _ "val ps # vs"] exI [of _ r] exI [of _ e]) simp
    next
      case (Failure e)
      with Some step have "res = Success \<lparr>val = acc, remaining = i\<rparr>" by simp
      with Some Failure show ?thesis
        by (intro exI [of _ "[]"] exI [of _ i] exI [of _ e]) simp
    qed
  qed
qed

lemma many_loop_terminates:
  assumes total: "\<And>j. p j \<noteq> None"
    and progress: "\<And>j ps. p j = Some (Success ps) \<Longrightarrow> length (remaining ps) < length j"
  shows "\<exists>s. many_loop p acc i = Some (Success s)"
proof (induction "length i" arbitrary: acc i rule: less_induct)
  case less
  from total [of i] obtain a where a: "p i = Some a" by auto
  show ?case
  proof (cases a)
    case (Success ps)
    with a progress have "length (remaining ps) < length i" by simp
    from less [OF this, of "acc @ [val ps]"] a Success show ?thesis
      by (simp add: many_loop_Success)
  next
    case (Failure e)
    with a show ?thesis by (simp add: many_loop_Failure)
  qed
qed

text \<open>
  C4. For every parser \<open>p\<close> and input \<open>i\<close>, \<open>many(p)(i)\<close> never fails. When \<open>p\<close>
  succeeds on the successive remainders with the values \<open>vs\<close> and then fails at the
  remainder \<open>r\<close>, \<open>many\<close> succeeds with \<open>vs\<close>, in order, and \<open>r\<close>; every result of
  \<open>many\<close> is of this form. It returns for every \<open>p\<close> that always returns and consumes
  input whenever it succeeds.
\<close>

theorem many_never_fails:
  "many p i \<noteq> Some (Failure e)
   \<and> (many_steps p i vs r \<and> p r = Some (Failure e') \<longrightarrow>
        many p i = Some (Success \<lparr>val = vs, remaining = r\<rparr>))
   \<and> (many p i = Some res \<longrightarrow>
        (\<exists>ws r' m. res = Success \<lparr>val = ws, remaining = r'\<rparr> \<and> many_steps p i ws r'
           \<and> p r' = Some (Failure m)))
   \<and> ((\<forall>j. p j \<noteq> None)
        \<and> (\<forall>j ps. p j = Some (Success ps) \<longrightarrow> length (remaining ps) < length j) \<longrightarrow>
        (\<exists>s. many p i = Some (Success s)))"
proof (intro conjI impI)
  show "many p i \<noteq> Some (Failure e)"
    using many_loop_returns [of p "[]" i "Failure e"] by (auto simp: many_def)
  show "many p i = Some (Success \<lparr>val = vs, remaining = r\<rparr>)"
    if "many_steps p i vs r \<and> p r = Some (Failure e')"
    using that many_loop_steps [of p i vs r e' "[]"] by (simp add: many_def)
  show "\<exists>ws r' m. res = Success \<lparr>val = ws, remaining = r'\<rparr> \<and> many_steps p i ws r'
           \<and> p r' = Some (Failure m)"
    if "many p i = Some res"
    using that many_loop_returns [of p "[]" i res] by (simp add: many_def)
  show "\<exists>s. many p i = Some (Success s)"
    if "(\<forall>j. p j \<noteq> None)
        \<and> (\<forall>j ps. p j = Some (Success ps) \<longrightarrow> length (remaining ps) < length j)"
    using that many_loop_terminates [of p "[]" i] by (simp add: many_def)
qed

theorem many_never_fails_witness:
  "many_steps digit ''12a'' ''12'' ''a''
   \<and> many digit ''12a'' = Some (Success \<lparr>val = ''12'', remaining = ''a''\<rparr>)"
proof -
  have s: "many_steps digit ''12a'' ''12'' ''a''"
    by (simp add: digit_def isdigit_def)
  have f: "digit ''a'' = Some (Failure (''Expected digit, found '' @ [CHR 0x27] @ ''a'' @ [CHR 0x27]))"
    by (simp add: digit_def isdigit_def found_text_def)
  from many_never_fails [of digit "''12a''" e "''12''" "''a''" _ res] s f
  have "many digit ''12a'' = Some (Success \<lparr>val = ''12'', remaining = ''a''\<rparr>)"
    by blast
  with s show ?thesis by blast
qed

section \<open>many1\<close>

lemma many_empty_iff:
  "many p i = Some (Success \<lparr>val = [], remaining = r\<rparr>) \<longleftrightarrow> (\<exists>e. p i = Some (Failure e)) \<and> r = i"
proof
  assume a: "many p i = Some (Success \<lparr>val = [], remaining = r\<rparr>)"
  from many_loop_returns [of p "[]" i "Success \<lparr>val = [], remaining = r\<rparr>"] a
  obtain vs r' e where h: "Success \<lparr>val = [], remaining = r\<rparr> = Success \<lparr>val = [] @ vs, remaining = r'\<rparr>"
    "many_steps p i vs r'" "p r' = Some (Failure e)"
    unfolding many_def by blast
  from h(1) have "vs = []" "r' = r" by simp_all
  with h(2,3) show "(\<exists>e. p i = Some (Failure e)) \<and> r = i" by auto
next
  assume "(\<exists>e. p i = Some (Failure e)) \<and> r = i"
  then show "many p i = Some (Success \<lparr>val = [], remaining = r\<rparr>)"
    by (auto simp: many_def many_loop_Failure)
qed

text \<open>
  C6. For every parser \<open>p\<close> and input \<open>i\<close>: \<open>many1(p)(i)\<close> fails with exactly
  "Expected at least one occurrence" when the sequence \<open>many(p)(i)\<close> collects is
  empty, which is when \<open>p\<close> fails at once on \<open>i\<close>, and otherwise it returns the
  success of \<open>many(p)(i)\<close> unchanged. \<open>many1(digit)("abc")\<close> fails with that message,
  and where \<open>p\<close> matches exactly once, \<open>many1(p)\<close> succeeds with the one value and the
  remainder of \<open>p\<close>.
\<close>

theorem many1_at_least_one:
  "(many p i = Some (Success \<lparr>val = [], remaining = r\<rparr>) \<longrightarrow>
      many1 p i = Some (Failure ''Expected at least one occurrence''))
   \<and> (many p i = Some (Success \<lparr>val = [], remaining = r\<rparr>) \<longleftrightarrow>
        (\<exists>m. p i = Some (Failure m)) \<and> r = i)
   \<and> (p i = Some (Failure e) \<longrightarrow>
        many1 p i = Some (Failure ''Expected at least one occurrence''))
   \<and> (many p i = Some (Success ps) \<and> val ps \<noteq> [] \<longrightarrow> many1 p i = many p i)
   \<and> many1 digit ''abc'' = Some (Failure ''Expected at least one occurrence'')
   \<and> (p i = Some (Success \<lparr>val = v, remaining = r\<rparr>) \<and> p r = Some (Failure e) \<longrightarrow>
        many1 p i = Some (Success \<lparr>val = [v], remaining = r\<rparr>))"
proof (intro conjI impI)
  show "many1 p i = Some (Failure ''Expected at least one occurrence'')"
    if "many p i = Some (Success \<lparr>val = [], remaining = r\<rparr>)"
    using that by (simp add: many1_def)
  show "many p i = Some (Success \<lparr>val = [], remaining = r\<rparr>) \<longleftrightarrow>
        (\<exists>m. p i = Some (Failure m)) \<and> r = i"
    by (rule many_empty_iff)
  show "many1 p i = Some (Failure ''Expected at least one occurrence'')"
    if "p i = Some (Failure e)"
    using that by (simp add: many1_def many_def many_loop_Failure)
  show "many1 p i = many p i" if "many p i = Some (Success ps) \<and> val ps \<noteq> []"
    using that by (simp add: many1_def)
  show "many1 digit ''abc'' = Some (Failure ''Expected at least one occurrence'')"
    by (simp add: many1_def many_def many_loop.simps digit_def isdigit_def)
  show "many1 p i = Some (Success \<lparr>val = [v], remaining = r\<rparr>)"
    if h: "p i = Some (Success \<lparr>val = v, remaining = r\<rparr>) \<and> p r = Some (Failure e)"
  proof -
    from h have "many_steps p i [v] r" by simp
    with h have "many_loop p [] i = Some (Success \<lparr>val = [] @ [v], remaining = r\<rparr>)"
      by (intro many_loop_steps) auto
    then show ?thesis by (simp add: many1_def many_def)
  qed
qed

theorem many1_at_least_one_witness:
  "many1 digit ''7x'' = Some (Success \<lparr>val = ''7'', remaining = ''x''\<rparr>)"
proof -
  have s: "digit ''7x'' = Some (Success \<lparr>val = CHR ''7'', remaining = ''x''\<rparr>)"
    by (simp add: digit_def isdigit_def)
  have f: "digit ''x'' = Some (Failure (''Expected digit, found '' @ [CHR 0x27] @ ''x'' @ [CHR 0x27]))"
    by (simp add: digit_def isdigit_def found_text_def)
  from many1_at_least_one [of digit "''7x''" "''x''" _ _ "CHR ''7''"] s f
  show ?thesis by blast
qed

section \<open>sep_by and the dangling separator\<close>

lemma sep_by_loop_elem_Failure:
  "element r = Some (Failure e) \<Longrightarrow>
     sep_by_loop element separator rs r = Some (Success \<lparr>val = rs, remaining = r\<rparr>)"
  by (subst sep_by_loop.simps) simp

lemma sep_by_loop_both_Success:
  "element r = Some (Success pe) \<Longrightarrow> separator (remaining pe) = Some (Success psep) \<Longrightarrow>
     sep_by_loop element separator rs r
       = sep_by_loop element separator (rs @ [val pe]) (remaining psep)"
  by (subst sep_by_loop.simps) simp

lemma sep_by_loop_steps:
  "sep_by_steps element separator i vs r \<Longrightarrow>
     sep_by_loop element separator acc i = sep_by_loop element separator (acc @ vs) r"
proof (induction vs arbitrary: acc i)
  case Nil
  then show ?case by simp
next
  case (Cons v vs)
  from Cons.prems obtain pe where pe: "element i = Some (Success pe)"
    by (cases "element i") (auto split: ParseResult.splits)
  with Cons.prems have v: "val pe = v"
    and rest: "(case separator (remaining pe) of
             Some (Success ps_sep) \<Rightarrow> sep_by_steps element separator (remaining ps_sep) vs r
           | _ \<Rightarrow> False)"
    by simp_all
  from rest obtain psep where psep: "separator (remaining pe) = Some (Success psep)"
    by (cases "separator (remaining pe)") (auto split: ParseResult.splits)
  with rest have "sep_by_steps element separator (remaining psep) vs r" by simp
  note h = pe v psep this
  from Cons.IH [OF h(4), of "acc @ [v]"] h(1,2,3) show ?case
    by (simp add: sep_by_loop_both_Success)
qed

text \<open>
  C1. For every element parser, separator parser and input: when, in the loop of
  \<open>sep_by\<close> (after any number of full rounds, leaving \<open>r0\<close>), the element succeeds,
  the separator then succeeds leaving \<open>r2\<close>, and the next element fails, \<open>sep_by\<close>
  succeeds with the values collected so far and the remainder \<open>r2\<close> left after that
  separator: what the separator consumed is not restored.
  \<open>sep_by(integer_p, skip_ws(char_p(',')))("10,20,")\<close> succeeds with the values
  \<open>[10, 20]\<close> and the remainder \<open>""\<close>.
\<close>

theorem sep_by_dangling_separator:
  "(sep_by_steps element separator i vs r0
      \<and> element r0 = Some (Success \<lparr>val = v, remaining = r1\<rparr>)
      \<and> separator r1 = Some (Success \<lparr>val = w, remaining = r2\<rparr>)
      \<and> element r2 = Some (Failure e) \<longrightarrow>
      sep_by element separator i = Some (Success \<lparr>val = vs @ [v], remaining = r2\<rparr>))
   \<and> sep_by integer_p (skip_ws (char_p (CHR '',''))) ''10,20,''
        = Some (Success \<lparr>val = [10, 20], remaining = ''''\<rparr>)"
proof (intro conjI impI)
  assume h: "sep_by_steps element separator i vs r0
      \<and> element r0 = Some (Success \<lparr>val = v, remaining = r1\<rparr>)
      \<and> separator r1 = Some (Success \<lparr>val = w, remaining = r2\<rparr>)
      \<and> element r2 = Some (Failure e)"
  then have "sep_by_loop element separator [] i = sep_by_loop element separator ([] @ vs) r0"
    by (intro sep_by_loop_steps) simp
  also from h have "\<dots> = sep_by_loop element separator (vs @ [v]) r2"
    by (simp add: sep_by_loop_both_Success [where pe = "\<lparr>val = v, remaining = r1\<rparr>"
          and psep = "\<lparr>val = w, remaining = r2\<rparr>"])
  also from h have "\<dots> = Some (Success \<lparr>val = vs @ [v], remaining = r2\<rparr>)"
    by (simp add: sep_by_loop_elem_Failure)
  finally show "sep_by element separator i = Some (Success \<lparr>val = vs @ [v], remaining = r2\<rparr>)"
    by (simp add: sep_by_def)
next
  show "sep_by integer_p (skip_ws (char_p (CHR '',''))) ''10,20,''
        = Some (Success \<lparr>val = [10, 20], remaining = ''''\<rparr>)"
    by (simp add: sep_by_def sep_by_loop.simps integer_p_def map_p_def many1_def many_def
      many_loop.simps digit_def isdigit_def digits_value_def skip_ws_def bind_p_def
      whitespace_def whitespace_char_def isspace_def char_p_def)
qed

theorem sep_by_dangling_separator_witness:
  "sep_by digit (char_p (CHR '';'')) ''1;2;x'' = Some (Success \<lparr>val = ''12'', remaining = ''x''\<rparr>)"
proof -
  have a: "sep_by_steps digit (char_p (CHR '';'')) ''1;2;x'' ''1'' ''2;x''"
    by (simp add: digit_def isdigit_def char_p_def)
  have b: "digit ''2;x'' = Some (Success \<lparr>val = CHR ''2'', remaining = '';x''\<rparr>)"
    by (simp add: digit_def isdigit_def)
  have c: "char_p (CHR '';'') '';x'' = Some (Success \<lparr>val = CHR '';'', remaining = ''x''\<rparr>)"
    by (simp add: char_p_def)
  have d: "digit ''x'' = Some (Failure (''Expected digit, found '' @ [CHR 0x27] @ ''x'' @ [CHR 0x27]))"
    by (simp add: digit_def isdigit_def found_text_def)
  from sep_by_dangling_separator [of digit "char_p (CHR '';'')" "''1;2;x''" "''1''" "''2;x''"
      "CHR ''2''" "'';x''" "CHR '';''" "''x''"] a b c d
  show ?thesis by simp
qed

section \<open>choice\<close>

lemma choice_loop_all_fail:
  "list_all2 (\<lambda>q e. q i = Some (Failure e)) ps es \<Longrightarrow>
     choice_loop ps i errs = choice_loop [] i (errs @ concat (map (\<lambda>e. e @ '' | '') es))"
proof (induction ps es arbitrary: errs rule: list_all2_induct)
  case Nil
  then show ?case by simp
next
  case (Cons q ps e es)
  from Cons.hyps(1) Cons.IH [of "errs @ e @ '' | ''"] show ?case by simp
qed

lemma choice_loop_first_success:
  "list_all2 (\<lambda>q e. q i = Some (Failure e)) qs es \<Longrightarrow> p i = Some (Success s) \<Longrightarrow>
     choice_loop (qs @ p # rest) i errs = Some (Success s)"
proof (induction qs es arbitrary: errs rule: list_all2_induct)
  case Nil
  then show ?case by simp
next
  case (Cons q qs e es)
  from Cons.hyps(1) Cons.IH [OF Cons.prems, of "errs @ e @ '' | ''"] show ?case by simp
qed

lemma concat_join_errors:
  "es \<noteq> [] \<Longrightarrow> concat (map (\<lambda>e. e @ '' | '') es) = join_errors es @ '' | ''"
  by (induction es rule: join_errors.induct) simp_all

lemma choice_all_fail:
  assumes "list_all2 (\<lambda>q e. q i = Some (Failure e)) ps es"
  shows "choice ps i = Some (Failure (if join_errors es = [] then ''No alternatives matched''
                                       else join_errors es))"
proof (cases "es = []")
  case True
  with assms have "ps = []" by simp
  with True show ?thesis by (simp add: choice_def)
next
  case False
  from assms have "choice ps i = choice_loop [] i (concat (map (\<lambda>e. e @ '' | '') es))"
    unfolding choice_def using choice_loop_all_fail [of i ps es "[]"] by simp
  also have "\<dots> = choice_loop [] i (join_errors es @ '' | '')"
    using False by (simp add: concat_join_errors)
  also have "\<dots> = Some (Failure (if join_errors es = [] then ''No alternatives matched''
                                       else join_errors es))"
    by simp
  finally show ?thesis .
qed

text \<open>
  C3, as the code has it. For every list of parsers and input \<open>i\<close>: \<open>choice\<close> applies
  the parsers in list order to the same input \<open>i\<close> and returns the result of the first
  that succeeds, so \<open>choice([p1, p2])(i)\<close> is \<open>p1(i)\<close> whenever \<open>p1(i)\<close> succeeds. When
  every parser fails, \<open>choice\<close> fails with the messages of the branches in order,
  joined by \<open>" | "\<close>, unless that joined message is empty, where it fails with
  "No alternatives matched"; for the empty list it fails with exactly
  "No alternatives matched".
\<close>

theorem choice_first_success:
  "(list_all2 (\<lambda>q e. q i = Some (Failure e)) qs es \<and> p i = Some (Success s) \<longrightarrow>
      choice (qs @ p # rest) i = Some (Success s))
   \<and> (p1 i = Some (Success s) \<longrightarrow> choice [p1, p2] i = p1 i)
   \<and> (list_all2 (\<lambda>q e. q i = Some (Failure e)) ps ms \<longrightarrow>
        choice ps i = Some (Failure (if join_errors ms = [] then ''No alternatives matched''
                                     else join_errors ms)))
   \<and> choice [] i = Some (Failure ''No alternatives matched'')"
proof (intro conjI impI)
  show "choice (qs @ p # rest) i = Some (Success s)"
    if "list_all2 (\<lambda>q e. q i = Some (Failure e)) qs es \<and> p i = Some (Success s)"
    using that choice_loop_first_success [of i qs es p s rest "[]"] by (simp add: choice_def)
  show "choice [p1, p2] i = p1 i" if "p1 i = Some (Success s)"
    using that by (simp add: choice_def)
  show "choice ps i = Some (Failure (if join_errors ms = [] then ''No alternatives matched''
                                     else join_errors ms))"
    if "list_all2 (\<lambda>q e. q i = Some (Failure e)) ps ms"
    using that by (rule choice_all_fail)
  show "choice [] i = Some (Failure ''No alternatives matched'')"
    by (simp add: choice_def)
qed

theorem choice_first_success_witness:
  "choice [digit, any_char, whitespace_char] ''x'' = Some (Success \<lparr>val = CHR ''x'', remaining = ''''\<rparr>)
   \<and> choice [digit, whitespace_char] ''x'' = Some (Failure
        (''Expected digit, found '' @ [CHR 0x27] @ ''x'' @ [CHR 0x27] @ '' | ''
         @ ''Expected whitespace, found '' @ [CHR 0x27] @ ''x'' @ [CHR 0x27]))"
proof -
  let ?d = "''Expected digit, found '' @ [CHR 0x27] @ ''x'' @ [CHR 0x27]"
  let ?w = "''Expected whitespace, found '' @ [CHR 0x27] @ ''x'' @ [CHR 0x27]"
  have d: "digit ''x'' = Some (Failure ?d)"
    by (simp add: digit_def isdigit_def found_text_def)
  have w: "whitespace_char ''x'' = Some (Failure ?w)"
    by (simp add: whitespace_char_def isspace_def found_text_def)
  have a: "any_char ''x'' = Some (Success \<lparr>val = CHR ''x'', remaining = ''''\<rparr>)"
    by (simp add: any_char_def)
  have l1: "list_all2 (\<lambda>q e. q ''x'' = Some (Failure e)) [digit] [?d]"
    using d by simp
  have l2: "list_all2 (\<lambda>q e. q ''x'' = Some (Failure e)) [digit, whitespace_char] [?d, ?w]"
    using d w by simp
  note t1 = choice_first_success [where i = "''x''" and qs = "[digit]" and es = "[?d]"
      and p = any_char and s = "\<lparr>val = CHR ''x'', remaining = ''''\<rparr>"
      and rest = "[whitespace_char]" and ps = "[]" and ms = "[]" and ?p1.0 = digit
      and ?p2.0 = digit]
  from t1 l1 a have "choice ([digit] @ any_char # [whitespace_char]) ''x''
      = Some (Success \<lparr>val = CHR ''x'', remaining = ''''\<rparr>)"
    by blast
  then have r1: "choice [digit, any_char, whitespace_char] ''x''
      = Some (Success \<lparr>val = CHR ''x'', remaining = ''''\<rparr>)"
    by simp
  note t2 = choice_first_success [where i = "''x''" and qs = "[]" and es = "[]"
      and p = any_char and s = "\<lparr>val = CHR ''x'', remaining = ''''\<rparr>"
      and rest = "[]" and ps = "[digit, whitespace_char]" and ms = "[?d, ?w]"
      and ?p1.0 = digit and ?p2.0 = digit]
  from t2 l2 have "choice [digit, whitespace_char] ''x''
      = Some (Failure (if join_errors [?d, ?w] = [] then ''No alternatives matched''
                       else join_errors [?d, ?w]))"
    by blast
  then have r2: "choice [digit, whitespace_char] ''x'' = Some (Failure (?d @ '' | '' @ ?w))"
    by simp
  from r1 r2 show ?thesis by simp
qed

text \<open>
  The claim as first stated, with the joined message in every case, fails for a single
  branch whose message is empty: the joined message is empty, and \<open>choice\<close> answers
  "No alternatives matched".
\<close>

theorem choice_empty_message_counterexample:
  "silent_failure ''x'' = Some (Failure '''')
   \<and> join_errors [''''] = ''''
   \<and> choice [silent_failure] ''x'' = Some (Failure ''No alternatives matched'')
   \<and> choice [silent_failure] ''x'' \<noteq> Some (Failure (join_errors ['''']))"
  by (simp add: choice_def silent_failure_def make_parser_def)

section \<open>integer_p\<close>

lemma isdigit_code: "isdigit c \<Longrightarrow> 48 \<le> (of_char c :: nat) \<and> (of_char c :: nat) \<le> 57"
  by (auto simp: isdigit_def)

lemma digit_isdigit:
  "isdigit c \<Longrightarrow> digit (c # rest) = Some (Success \<lparr>val = c, remaining = rest\<rparr>)"
  by (simp add: digit_def)

lemma digit_not_isdigit:
  "rest = [] \<or> \<not> isdigit (hd rest) \<Longrightarrow>
     digit rest = Some (Failure (''Expected digit, found '' @ [CHR 0x27] @ found_text rest @ [CHR 0x27]))"
  by (auto simp: digit_def)

lemma many_steps_digits:
  "\<forall>c\<in>set ds. isdigit c \<Longrightarrow> many_steps digit (ds @ rest) ds rest"
  by (induction ds) (simp_all add: digit_isdigit)

lemma many_digit_run:
  assumes "\<forall>c\<in>set ds. isdigit c" and "rest = [] \<or> \<not> isdigit (hd rest)"
  shows "many digit (ds @ rest) = Some (Success \<lparr>val = ds, remaining = rest\<rparr>)"
  using many_loop_steps [OF many_steps_digits [OF assms(1)] digit_not_isdigit [OF assms(2)], of "[]"]
  by (simp add: many_def)

lemma digits_value_foldl:
  "\<forall>c\<in>set ds. isdigit c \<Longrightarrow>
     foldl (\<lambda>v c. v * 10 + (word_of_nat (of_char c) - 48)) (word_of_nat n :: cint) ds
       = word_of_nat (foldl (\<lambda>n c. n * 10 + (of_char c - 48)) n ds)"
proof (induction ds arbitrary: n)
  case Nil
  then show ?case by simp
next
  case (Cons c ds)
  then have c: "48 \<le> (of_char c :: nat)" by (simp add: isdigit_code)
  have step: "(word_of_nat n :: cint) * 10 + (word_of_nat (of_char c) - 48)
      = word_of_nat (n * 10 + (of_char c - 48))"
    using c by (simp add: of_nat_diff)
  from Cons.prems have ds: "\<forall>c\<in>set ds. isdigit c" by simp
  have "foldl (\<lambda>v c. v * 10 + (word_of_nat (of_char c) - 48)) (word_of_nat n :: cint) (c # ds)
      = foldl (\<lambda>v c. v * 10 + (word_of_nat (of_char c) - 48))
          (word_of_nat (n * 10 + (of_char c - 48)) :: cint) ds"
    by (simp only: foldl.simps step)
  also have "\<dots> = word_of_nat (foldl (\<lambda>n c. n * 10 + (of_char c - 48))
      (n * 10 + (of_char c - 48)) ds)"
    by (rule Cons.IH [OF ds])
  finally show ?case by simp
qed

lemma digits_value_decimal:
  "\<forall>c\<in>set ds. isdigit c \<Longrightarrow> digits_value ds = word_of_nat (decimal_value ds)"
  using digits_value_foldl [of ds 0] by (simp add: digits_value_def decimal_value_def)

lemma sint_small:
  assumes "n < 2 ^ 31"
  shows "sint (word_of_nat n :: cint) = int n"
proof -
  from assms have b: "int n < 2 ^ 31" by simp
  have "sint (word_of_int (int n) :: cint) = signed_take_bit (LENGTH(32) - 1) (int n)"
    by (rule sint_sbintrunc')
  also have "\<dots> = signed_take_bit 31 (int n)" by simp
  also have "\<dots> = int n"
  proof (rule signed_take_bit_int_eq_self)
    show "- (2 ^ 31) \<le> int n" by (rule order_trans [of _ 0]) simp_all
    show "int n < 2 ^ 31" by (rule b)
  qed
  finally show ?thesis by simp
qed

text \<open>
  C7, as the code has it. For every input that begins with one or more decimal digits
  \<open>ds\<close>, followed by \<open>rest\<close> that does not begin with a digit, \<open>integer_p\<close> succeeds,
  consumes exactly \<open>ds\<close>, and its value is the fold \<open>value = value * 10 + digit\<close> over
  \<open>ds\<close> in 32-bit arithmetic: the number \<open>ds\<close> denotes, modulo \<open>2 ^ 32\<close>. Read as a
  signed \<^verbatim>\<open>int\<close> it is that number, hence non-negative, when the number is below
  \<open>2 ^ 31\<close>. \<open>integer_p("123abc")\<close> succeeds with \<open>123\<close> and the remainder \<open>"abc"\<close>.
\<close>

theorem integer_p_digit_run:
  "(ds \<noteq> [] \<and> (\<forall>c\<in>set ds. isdigit c) \<and> (rest = [] \<or> \<not> isdigit (hd rest)) \<longrightarrow>
      integer_p (ds @ rest) = Some (Success \<lparr>val = digits_value ds, remaining = rest\<rparr>)
      \<and> digits_value ds = word_of_nat (decimal_value ds)
      \<and> (decimal_value ds < 2 ^ 31 \<longrightarrow> sint (digits_value ds) = int (decimal_value ds)))
   \<and> integer_p ''123abc'' = Some (Success \<lparr>val = 123, remaining = ''abc''\<rparr>)"
proof (intro conjI impI)
  assume h: "ds \<noteq> [] \<and> (\<forall>c\<in>set ds. isdigit c) \<and> (rest = [] \<or> \<not> isdigit (hd rest))"
  then have "many digit (ds @ rest) = Some (Success \<lparr>val = ds, remaining = rest\<rparr>)"
    by (intro many_digit_run) simp_all
  with h show "integer_p (ds @ rest) = Some (Success \<lparr>val = digits_value ds, remaining = rest\<rparr>)"
    by (simp add: integer_p_def map_p_def many1_def)
  from h show dv: "digits_value ds = word_of_nat (decimal_value ds)"
    by (intro digits_value_decimal) simp
  show "sint (digits_value ds) = int (decimal_value ds)" if "decimal_value ds < 2 ^ 31"
    using that dv by (simp add: sint_small)
next
  show "integer_p ''123abc'' = Some (Success \<lparr>val = 123, remaining = ''abc''\<rparr>)"
    by (simp add: integer_p_def map_p_def many1_def many_def many_loop.simps digit_def
      isdigit_def digits_value_def)
qed

theorem integer_p_digit_run_witness:
  "integer_p ''907 '' = Some (Success \<lparr>val = 907, remaining = '' ''\<rparr>)
   \<and> sint (907 :: cint) = 907"
proof -
  have a: "''907'' \<noteq> [] \<and> (\<forall>c\<in>set ''907''. isdigit c) \<and> ('' '' = [] \<or> \<not> isdigit (hd '' ''))"
    by (simp add: isdigit_def)
  have v: "digits_value ''907'' = 907" by (simp add: digits_value_def)
  have d: "decimal_value ''907'' = 907" by (simp add: decimal_value_def)
  from integer_p_digit_run [of "''907''" "'' ''"] a
  have "integer_p (''907'' @ '' '') = Some (Success \<lparr>val = digits_value ''907'', remaining = '' ''\<rparr>)"
    and "decimal_value ''907'' < 2 ^ 31 \<longrightarrow> sint (digits_value ''907'') = int (decimal_value ''907'')"
    by blast+
  with v d show ?thesis by simp
qed

text \<open>
  The value is not non-negative for every run of digits: on \<open>"2147483648"\<close> the fold
  leaves the range of \<^verbatim>\<open>int\<close> and the value is negative.
\<close>

theorem integer_p_overflow_counterexample:
  "integer_p ''2147483648'' = Some (Success \<lparr>val = - 2147483648, remaining = ''''\<rparr>)
   \<and> sint (- 2147483648 :: cint) < 0"
  by (simp add: integer_p_def map_p_def many1_def many_def many_loop.simps digit_def
      isdigit_def digits_value_def)

section \<open>The remainder is a suffix of the input\<close>

lemma leaves_suffixI:
  "(\<And>i s. p i = Some (Success s) \<Longrightarrow> suffix (remaining s) i) \<Longrightarrow> leaves_suffix p"
  by (simp add: leaves_suffix_def)

lemma leaves_suffixD:
  "leaves_suffix p \<Longrightarrow> p i = Some (Success s) \<Longrightarrow> suffix (remaining s) i"
  by (simp add: leaves_suffix_def)

lemma leaves_suffix_any_char: "leaves_suffix any_char"
  by (rule leaves_suffixI) (auto simp: any_char_def suffix_Cons split: list.splits)

lemma leaves_suffix_char_p: "leaves_suffix (char_p c)"
  by (rule leaves_suffixI) (auto simp: char_p_def suffix_drop split: if_splits)

lemma leaves_suffix_string_p: "leaves_suffix (string_p e)"
  by (rule leaves_suffixI) (auto simp: string_p_def Let_def suffix_drop split: if_splits)

lemma leaves_suffix_digit: "leaves_suffix digit"
  by (rule leaves_suffixI) (auto simp: digit_def suffix_drop split: if_splits)

lemma leaves_suffix_whitespace_char: "leaves_suffix whitespace_char"
  by (rule leaves_suffixI) (auto simp: whitespace_char_def suffix_drop split: if_splits)

lemma leaves_suffix_map_p: "leaves_suffix p \<Longrightarrow> leaves_suffix (map_p p f)"
  by (rule leaves_suffixI)
    (auto simp: map_p_def dest: leaves_suffixD split: option.splits ParseResult.splits)

lemma leaves_suffix_bind_p:
  assumes "leaves_suffix p" and "\<And>a. leaves_suffix (f a)"
  shows "leaves_suffix (bind_p p f)"
proof (rule leaves_suffixI)
  fix i s
  assume h: "bind_p p f i = Some (Success s)"
  then obtain ps where ps: "p i = Some (Success ps)" "f (val ps) (remaining ps) = Some (Success s)"
    by (auto simp: bind_p_def split: option.splits ParseResult.splits)
  from leaves_suffixD [OF assms(1) ps(1)] leaves_suffixD [OF assms(2) ps(2)]
  show "suffix (remaining s) i" by (rule suffix_order.trans [rotated])
qed

lemma leaves_suffix_sequence:
  assumes "leaves_suffix p1" and "leaves_suffix p2"
  shows "leaves_suffix (sequence p1 p2)"
proof (rule leaves_suffixI)
  fix i s
  assume h: "sequence p1 p2 i = Some (Success s)"
  then obtain ps1 ps2 where ps: "p1 i = Some (Success ps1)" "p2 (remaining ps1) = Some (Success ps2)"
    "remaining s = remaining ps2"
    by (auto simp: sequence_def split: option.splits ParseResult.splits)
  from leaves_suffixD [OF assms(1) ps(1)] leaves_suffixD [OF assms(2) ps(2)] ps(3)
  show "suffix (remaining s) i" by (simp add: suffix_order.trans)
qed

lemma choice_loop_suffix:
  "(\<And>p. p \<in> set ps \<Longrightarrow> leaves_suffix p) \<Longrightarrow> choice_loop ps i errs = Some (Success s) \<Longrightarrow>
     suffix (remaining s) i"
proof (induction ps arbitrary: errs)
  case Nil
  then show ?case by (simp add: Let_def)
next
  case (Cons p ps)
  show ?case
  proof (cases "p i")
    case None
    with Cons.prems(2) show ?thesis by simp
  next
    case (Some a)
    show ?thesis
    proof (cases a)
      case (Success ps1)
      with Some Cons.prems(2) have "s = ps1" by simp
      with Some Success Cons.prems(1) [of p] show ?thesis
        by (auto dest: leaves_suffixD)
    next
      case (Failure e)
      with Some Cons.prems(2) have "choice_loop ps i (errs @ e @ '' | '') = Some (Success s)"
        by simp
      with Cons.IH Cons.prems(1) show ?thesis by simp
    qed
  qed
qed

lemma leaves_suffix_choice:
  assumes "\<And>p. p \<in> set ps \<Longrightarrow> leaves_suffix p"
  shows "leaves_suffix (choice ps)"
proof (rule leaves_suffixI)
  fix i s
  assume "choice ps i = Some (Success s)"
  then have "choice_loop ps i [] = Some (Success s)" by (simp add: choice_def)
  with assms show "suffix (remaining s) i" by (rule choice_loop_suffix)
qed

lemma many_steps_suffix:
  "leaves_suffix p \<Longrightarrow> many_steps p i vs r \<Longrightarrow> suffix r i"
proof (induction vs arbitrary: i)
  case Nil
  then show ?case by simp
next
  case (Cons v vs)
  from Cons.prems(2) obtain ps where ps: "p i = Some (Success ps)"
    by (cases "p i") (auto split: ParseResult.splits)
  with Cons.prems(2) have "many_steps p (remaining ps) vs r" by simp
  from Cons.IH [OF Cons.prems(1) this] leaves_suffixD [OF Cons.prems(1) ps]
  show ?case by (rule suffix_order.trans)
qed

lemma leaves_suffix_many: "leaves_suffix p \<Longrightarrow> leaves_suffix (many p)"
proof (rule leaves_suffixI)
  fix i s
  assume p: "leaves_suffix p" and h: "many p i = Some (Success s)"
  from many_loop_returns [of p "[]" i "Success s"] h
  obtain vs r e where "Success s = Success \<lparr>val = [] @ vs, remaining = r\<rparr>" "many_steps p i vs r"
    unfolding many_def by blast
  with many_steps_suffix [OF p, of i vs r] show "suffix (remaining s) i" by simp
qed

lemma leaves_suffix_many1: "leaves_suffix p \<Longrightarrow> leaves_suffix (many1 p)"
proof (rule leaves_suffixI)
  fix i s
  assume p: "leaves_suffix p" and h: "many1 p i = Some (Success s)"
  then have "many p i = Some (Success s)"
    by (auto simp: many1_def split: option.splits ParseResult.splits if_splits)
  with leaves_suffix_many [OF p] show "suffix (remaining s) i" by (rule leaves_suffixD)
qed

lemma leaves_suffix_optional_p: "leaves_suffix p \<Longrightarrow> leaves_suffix (optional_p p)"
  by (rule leaves_suffixI)
    (auto simp: optional_p_def dest: leaves_suffixD split: option.splits ParseResult.splits)

lemma sep_by_loop_suffix:
  assumes "sep_by_loop element separator acc i = Some res"
  shows "leaves_suffix element \<longrightarrow> leaves_suffix separator \<longrightarrow>
           (\<exists>s. res = Success s \<and> suffix (remaining s) i)"
proof (rule sep_by_loop.raw_induct
    [where P = "\<lambda>element separator acc i res. leaves_suffix element \<longrightarrow>
        leaves_suffix separator \<longrightarrow> (\<exists>s. res = Success s \<and> suffix (remaining s) i)",
      OF _ assms])
  fix loop :: "'a Parser \<Rightarrow> 'b Parser \<Rightarrow> 'a list \<Rightarrow> string \<Rightarrow> 'a list ParseResult option"
  fix element separator acc i res
  assume IH: "\<And>element separator acc i res. loop element separator acc i = Some res \<Longrightarrow>
      leaves_suffix element \<longrightarrow> leaves_suffix separator \<longrightarrow>
        (\<exists>s. res = Success s \<and> suffix (remaining s) i)"
  assume step: "(case element i of
        None \<Rightarrow> None
      | Some (Success ps_elem) \<Rightarrow>
          (case separator (remaining ps_elem) of
             None \<Rightarrow> None
           | Some (Success ps_sep) \<Rightarrow>
               loop element separator (acc @ [val ps_elem]) (remaining ps_sep)
           | Some (Failure e) \<Rightarrow>
               Some (Success \<lparr>val = acc @ [val ps_elem], remaining = remaining ps_elem\<rparr>))
      | Some (Failure e) \<Rightarrow> Some (Success \<lparr>val = acc, remaining = i\<rparr>)) = Some res"
  show "leaves_suffix element \<longrightarrow> leaves_suffix separator \<longrightarrow>
        (\<exists>s. res = Success s \<and> suffix (remaining s) i)"
  proof (intro impI)
    assume el: "leaves_suffix element" and sp: "leaves_suffix separator"
    show "\<exists>s. res = Success s \<and> suffix (remaining s) i"
    proof (cases "element i")
      case None
      with step show ?thesis by simp
    next
      case (Some a)
      show ?thesis
      proof (cases a)
        case (Failure e)
        with Some step show ?thesis by auto
      next
        case (Success pe)
        from leaves_suffixD [OF el] Some Success have s1: "suffix (remaining pe) i" by simp
        show ?thesis
        proof (cases "separator (remaining pe)")
          case None
          with Some Success step show ?thesis by simp
        next
          case (Some b)
          note sb = this
          show ?thesis
          proof (cases b)
            case (Failure e)
            with sb \<open>element i = Some a\<close> Success step s1 show ?thesis by auto
          next
            case (Success psep)
            from leaves_suffixD [OF sp] sb Success
            have s2: "suffix (remaining psep) (remaining pe)" by simp
            from sb Success \<open>element i = Some a\<close> \<open>a = Success pe\<close> step
            have "loop element separator (acc @ [val pe]) (remaining psep) = Some res" by simp
            from IH [OF this] el sp obtain s where
              s: "res = Success s" "suffix (remaining s) (remaining psep)" by blast
            from s(2) s2 s1 have "suffix (remaining s) i"
              by (meson suffix_order.trans)
            with s(1) show ?thesis by simp
          qed
        qed
      qed
    qed
  qed
qed

lemma leaves_suffix_sep_by:
  "leaves_suffix element \<Longrightarrow> leaves_suffix separator \<Longrightarrow> leaves_suffix (sep_by element separator)"
  by (rule leaves_suffixI) (auto simp: sep_by_def dest: sep_by_loop_suffix)

lemma leaves_suffix_whitespace: "leaves_suffix whitespace"
  unfolding whitespace_def by (rule leaves_suffix_many [OF leaves_suffix_whitespace_char])

lemma leaves_suffix_skip_ws: "leaves_suffix p \<Longrightarrow> leaves_suffix (skip_ws p)"
  unfolding skip_ws_def by (rule leaves_suffix_bind_p [OF leaves_suffix_whitespace])

lemma leaves_suffix_integer_p: "leaves_suffix integer_p"
  unfolding integer_p_def
  by (rule leaves_suffix_map_p [OF leaves_suffix_many1 [OF leaves_suffix_digit]])

lemma leaves_suffix_parser_of: "leaves_suffix (parser_of g)"
proof (induction g)
  case (Bind g f)
  show ?case unfolding parser_of.simps
    by (rule leaves_suffix_bind_p [OF Bind(1)]) (rule Bind(2), simp)
next
  case (Choice gs)
  show ?case unfolding parser_of.simps
    by (rule leaves_suffix_choice) (auto dest: Choice)
qed (simp_all add: leaves_suffix_any_char leaves_suffix_char_p leaves_suffix_string_p
      leaves_suffix_digit leaves_suffix_whitespace_char leaves_suffix_map_p
      leaves_suffix_sequence leaves_suffix_many leaves_suffix_many1 leaves_suffix_optional_p
      leaves_suffix_sep_by leaves_suffix_whitespace leaves_suffix_skip_ws
      leaves_suffix_integer_p)

text \<open>
  C2. For every parser composed from the primitives (\<open>any_char\<close>, \<open>char_p\<close>,
  \<open>string_p\<close>, \<open>digit\<close>, \<open>whitespace_char\<close>) and the combinators (\<open>map\<close>, \<open>bind\<close>,
  \<open>sequence\<close>, \<open>choice\<close>, \<open>many\<close>, \<open>many1\<close>, \<open>optional_p\<close>, \<open>sep_by\<close>, \<open>skip_ws\<close>,
  \<open>integer_p\<close>), where the functions given to \<open>map\<close> and \<open>bind\<close> yield values and such
  parsers, and for every input \<open>i\<close>: if the parser succeeds on \<open>i\<close> with the remainder
  \<open>r\<close>, then \<open>r\<close> is a suffix of \<open>i\<close>.
\<close>

theorem remainder_is_suffix:
  "parser_of g i = Some (Success s) \<Longrightarrow> suffix (remaining s) i"
  using leaves_suffix_parser_of by (rule leaves_suffixD)

theorem remainder_is_suffix_witness:
  "parser_of (SepBy IntegerP (SkipWs (CharP (CHR '',''))) :: unit grammar) ''10,20,x''
     = Some (Success \<lparr>val = VList [VInt 10, VInt 20], remaining = ''x''\<rparr>)
   \<and> suffix ''x'' ''10,20,x''"
proof -
  have e: "parser_of (SepBy IntegerP (SkipWs (CharP (CHR '',''))) :: unit grammar) ''10,20,x''
     = Some (Success \<lparr>val = VList [VInt 10, VInt 20], remaining = ''x''\<rparr>)"
    by (simp add: sep_by_def sep_by_loop.simps integer_p_def map_p_def many1_def many_def
      many_loop.simps digit_def isdigit_def digits_value_def skip_ws_def bind_p_def
      whitespace_def whitespace_char_def isspace_def char_p_def found_text_def)
  from remainder_is_suffix [OF e] have "suffix ''x'' ''10,20,x''" by simp
  with e show ?thesis by blast
qed

end
